theory Spec2Isabelle
  imports Complex_Main
begin

section \<open>Data model (src/types/watermark.ts)\<close>

text \<open>
  JavaScript strings are modelled as \<open>string\<close>; one \<open>char\<close> stands for one UTF-16 code
  unit in the range U+0000 .. U+00FF. Numbers that are only stored or ordered as indices
  are \<open>int\<close>; the coordinates of a custom position are \<open>jsnum\<close> (below), which keeps NaN
  and the infinities apart from the finite values.
\<close>

datatype WatermarkPosition =
  TopLeft | TopCenter | TopRight | CenterLeft | Center | CenterRight
  | BottomLeft | BottomCenter | BottomRight

datatype WatermarkType = TextType | ImageType

datatype PositionMode = Preset | Custom

datatype jsnum = NaN | NegInfinity | Fin real | PosInfinity

record WatermarkConfig =
  watermarkType :: WatermarkType
  wm_text :: string
  imagePath :: "string option"
  position :: WatermarkPosition
  opacity :: int
  textColor :: string
  fontSize :: int
  fontFamily :: string
  imageScale :: "int option"
  positionMode :: "PositionMode option"
  customPosition :: "(jsnum \<times> jsnum) option"

datatype MediaType = ImageFile | VideoFile

record FileItem =
  path :: string
  name :: string
  file_type :: MediaType
  file_size :: "int option"

datatype ProcessingStatus = Success | Failed | Skipped

record FileResult =
  inputPath :: string
  outputPath :: "string option"
  fr_status :: ProcessingStatus
  fr_error :: "string option"

record BatchResult =
  files :: "FileResult list"
  br_total :: int
  successful :: int
  failed :: int

datatype ProgressStatus = StProcessing | StComplete | StError

record ProgressPayload =
  filePath :: string
  fileIndex :: int
  totalFiles :: int
  status :: ProgressStatus

datatype ProcessingState = Idle | Processing | Complete | Error | Cancelled

definition DEFAULT_WATERMARK_CONFIG :: WatermarkConfig where
  "DEFAULT_WATERMARK_CONFIG =
     \<lparr> watermarkType = TextType, wm_text = ''Watermark'', imagePath = None,
       position = BottomRight, opacity = 80, textColor = ''#ffffff'', fontSize = 48,
       fontFamily = ''Arial'', imageScale = Some 20, positionMode = Some Preset,
       customPosition = None \<rparr>"

section \<open>File classification (src/hooks/useFileSelection.ts)\<close>

definition IMAGE_EXTENSIONS :: "string list" where
  "IMAGE_EXTENSIONS = [''png'', ''jpg'', ''jpeg'', ''gif'', ''bmp'', ''webp'']"

definition VIDEO_EXTENSIONS :: "string list" where
  "VIDEO_EXTENSIONS = [''mp4'', ''avi'', ''mov'', ''mkv'', ''webm'', ''flv'']"

text \<open>
  \<open>String.prototype.toLowerCase\<close> on code units below U+0100: the ASCII capitals and the
  Latin-1 capitals U+00C0 .. U+00DE (without the multiplication sign U+00D7) move up by 32,
  every other unit stays.
\<close>

definition toLowerCase_char :: "char \<Rightarrow> char" where
  "toLowerCase_char c =
     (let n = (of_char c :: nat) in
      if (65 \<le> n \<and> n \<le> 90) \<or> (192 \<le> n \<and> n \<le> 222 \<and> n \<noteq> 215)
      then char_of (n + 32) else c)"

definition toLowerCase :: "string \<Rightarrow> string" where
  "toLowerCase s = map toLowerCase_char s"

text \<open>
  \<open>path.split\<close> on the separator class (slash or backslash, code unit 0x5C): the
  segments between the separators; the result always has at least one segment.
\<close>

definition is_separator :: "char \<Rightarrow> bool" where
  "is_separator c = (c = CHR ''/'' \<or> c = CHR 0x5C)"

fun split_path :: "string \<Rightarrow> string list" where
  "split_path [] = [[]]"
| "split_path (c # cs) =
     (if is_separator c then [] # split_path cs
      else (case split_path cs of
              [] \<Rightarrow> [[c]]
            | seg # rest \<Rightarrow> (c # seg) # rest))"

text \<open>
  \<open>getExtension\<close> matches \<open>/\.([^.]+)$/\<close>: the match exists exactly when the string has a
  dot and the part after its last dot is not empty; that part is the capture group.
\<close>

definition getExtension :: "string \<Rightarrow> string" where
  "getExtension p =
     (let tail = rev (takeWhile (\<lambda>c. c \<noteq> CHR ''.'') (rev p)) in
      if CHR ''.'' \<in> set p \<and> tail \<noteq> [] then toLowerCase tail else [])"

definition toFileItem :: "string \<Rightarrow> FileItem" where
  "toFileItem p =
     (let segments = split_path p;
          nm = (case segments of [] \<Rightarrow> p | _ \<Rightarrow> last segments);
          extension = getExtension nm
      in \<lparr> path = p, name = nm,
           file_type = (if extension \<in> set IMAGE_EXTENSIONS then ImageFile else VideoFile),
           file_size = None \<rparr>)"

text \<open>
  The specification's reading of "the lower-cased extension is \<open>e\<close>", for an extension name
  \<open>e\<close> made of small ASCII letters and digits: \<open>ext\<close> is \<open>e\<close> letter by letter, except
  that an ASCII capital may stand where \<open>e\<close> has its small letter. \<open>small\<close> says that a
  character is a small ASCII letter or a digit.
\<close>

definition same_ignoring_case :: "string \<Rightarrow> string \<Rightarrow> bool" where
  "same_ignoring_case ext e =
     list_all2 (\<lambda>c d. c = d \<or> (65 \<le> (of_char c :: nat) \<and> (of_char c :: nat) \<le> 90
                              \<and> (of_char d :: nat) = of_char c + 32)) ext e"

definition small :: "char \<Rightarrow> bool" where
  "small d = ((97 \<le> (of_char d :: nat) \<and> (of_char d :: nat) \<le> 122)
              \<or> (48 \<le> (of_char d :: nat) \<and> (of_char d :: nat) \<le> 57))"

section \<open>The processing controller (useWatermarkProcessor)\<close>

definition noFiles :: string where
  "noFiles = ''Add files before processing.''"

definition noOutput :: string where
  "noOutput = ''Please select an output directory.''"

definition emptyText :: string where
  "emptyText = ''Watermark text cannot be empty.''"

definition missingImage :: string where
  "missingImage = ''Select a watermark image before processing.''"

text \<open>
  \<open>String.prototype.trim\<close> strips white space and line terminators from both ends. Below
  U+0100 these are TAB, LF, VT, FF, CR, SPACE and NO-BREAK SPACE.
\<close>

definition is_whitespace :: "char \<Rightarrow> bool" where
  "is_whitespace c =
     (c \<in> set [CHR 0x09, CHR 0x0A, CHR 0x0B, CHR 0x0C, CHR 0x0D, CHR 0x20, CHR 0xA0])"

definition trim :: "string \<Rightarrow> string" where
  "trim s = rev (dropWhile is_whitespace (rev (dropWhile is_whitespace s)))"

text \<open>Truthiness of a \<open>string | null\<close> value: neither \<open>null\<close> nor the empty string.\<close>

definition truthy :: "string option \<Rightarrow> bool" where
  "truthy v = (case v of None \<Rightarrow> False | Some t \<Rightarrow> t \<noteq> [])"

definition validateInputs :: "FileItem list \<Rightarrow> WatermarkConfig \<Rightarrow> string \<Rightarrow> string option" where
  "validateInputs fs config outputDir =
     (if length fs = 0 then Some noFiles
      else if outputDir = [] then Some noOutput
      else if watermarkType config = TextType \<and> trim (wm_text config) = [] then Some emptyText
      else if watermarkType config = ImageType \<and> \<not> truthy (imagePath config)
        then Some missingImage
      else None)"

text \<open>
  A value caught from a rejected \<open>invoke\<close>: an \<open>Error\<close> object with its message, or any
  other value with its \<open>String(err)\<close> conversion.
\<close>

datatype thrown = ErrorObject string | OtherValue string

fun rejection_message :: "thrown \<Rightarrow> string" where
  "rejection_message (ErrorObject m) = m"
| "rejection_message (OtherValue v) = v"

text \<open>The two event names of the channel, and where \<open>registerListeners\<close> stands.\<close>

datatype channel_event = WatermarkProgress | WatermarkComplete

datatype registration =
  NotStarted | AwaitProgressListen | AwaitCompleteListen | RegistrationDone | RegistrationFailed

text \<open>
  The hook's React state and refs, the \<open>isMounted\<close> variable of its effect, and what it
  has done to its collaborators: the calls of \<open>invoke\<close>, the handles \<open>listen\<close> has issued (in
  order, a handle is the index of its registration) and the calls of those handles. The
  progress \<open>Map\<close> is a list of entries in insertion order.
\<close>

record hook =
  processingState :: ProcessingState
  progress :: "(string \<times> ProgressPayload) list"
  result :: "BatchResult option"
  error :: "string option"
  unlistenProgressRef :: "nat option"
  unlistenCompleteRef :: "nat option"
  isCancelledRef :: bool
  isMounted :: bool
  registerListeners :: registration
  invokeCalls :: "(FileItem list \<times> WatermarkConfig \<times> string) list"
  registrations :: "channel_event list"
  unlistenCalls :: "nat list"

definition initial :: hook where
  "initial =
     \<lparr> processingState = Idle, progress = [], result = None, error = None,
       unlistenProgressRef = None, unlistenCompleteRef = None, isCancelledRef = False,
       isMounted = False, registerListeners = NotStarted, invokeCalls = [],
       registrations = [], unlistenCalls = [] \<rparr>"

text \<open>\<open>Map.prototype.set\<close>: an existing key keeps its place, a new key goes last.\<close>

fun map_set :: "'k \<Rightarrow> 'v \<Rightarrow> ('k \<times> 'v) list \<Rightarrow> ('k \<times> 'v) list" where
  "map_set k v [] = [(k, v)]"
| "map_set k v (e # es) = (if fst e = k then (k, v) # es else e # map_set k v es)"

text \<open>The callback registered for \<open>watermark-progress\<close>.\<close>

definition onProgress :: "ProgressPayload \<Rightarrow> hook \<Rightarrow> hook" where
  "onProgress payload s =
     (if \<not> isMounted s \<or> isCancelledRef s then s
      else s\<lparr>progress := map_set (filePath payload) payload (progress s)\<rparr>)"

text \<open>The callback registered for \<open>watermark-complete\<close>.\<close>

definition onComplete :: "BatchResult \<Rightarrow> hook \<Rightarrow> hook" where
  "onComplete payload s =
     (if \<not> isMounted s then s
      else if isCancelledRef s then s\<lparr>result := Some payload, processingState := Cancelled\<rparr>
      else s\<lparr>result := Some payload, processingState := Complete\<rparr>)"

text \<open>
  \<open>processBatch\<close> up to its \<open>await invoke(...)\<close>, and its two continuations: a resolved
  call only logs, a rejected one stores the message.
\<close>

definition processBatch :: "FileItem list \<Rightarrow> WatermarkConfig \<Rightarrow> string \<Rightarrow> hook \<Rightarrow> hook" where
  "processBatch fs config outputDir s =
     (let validationError = validateInputs fs config outputDir in
      if truthy validationError
      then s\<lparr>error := validationError, processingState := Error\<rparr>
      else s\<lparr>processingState := Processing, error := None, result := None, progress := [],
             isCancelledRef := False,
             invokeCalls := invokeCalls s @ [(fs, config, outputDir)]\<rparr>)"

definition invokeResolved :: "BatchResult \<Rightarrow> hook \<Rightarrow> hook" where
  "invokeResolved r s = s"

definition invokeRejected :: "thrown \<Rightarrow> hook \<Rightarrow> hook" where
  "invokeRejected err s = s\<lparr>error := Some (rejection_message err), processingState := Error\<rparr>"

definition cancelProcessing :: "hook \<Rightarrow> hook" where
  "cancelProcessing s =
     (if processingState s \<noteq> Processing then s
      else s\<lparr>isCancelledRef := True, processingState := Cancelled\<rparr>)"

definition progressArray :: "hook \<Rightarrow> ProgressPayload list" where
  "progressArray s = sort_key fileIndex (map snd (progress s))"

definition isProcessing :: "hook \<Rightarrow> bool" where
  "isProcessing s = (processingState s = Processing)"

text \<open>
  The effect of the hook. \<open>mount\<close> is the effect body up to the first \<open>await listen(...)\<close>
  of \<open>registerListeners\<close>; \<open>listenResolved\<close> and \<open>listenRejected\<close> are the continuations of
  a pending \<open>listen\<close> (the \<open>catch\<close> block ends the registration); \<open>cleanup\<close> is the function
  the effect returns, run on unmount.
\<close>

definition mount :: "hook \<Rightarrow> hook" where
  "mount s = s\<lparr>isMounted := True, registerListeners := AwaitProgressListen\<rparr>"

definition listenResolved :: "hook \<Rightarrow> hook" where
  "listenResolved s =
     (case registerListeners s of
        AwaitProgressListen \<Rightarrow>
          s\<lparr>registrations := registrations s @ [WatermarkProgress],
            unlistenProgressRef := Some (length (registrations s)),
            registerListeners := AwaitCompleteListen\<rparr>
      | AwaitCompleteListen \<Rightarrow>
          s\<lparr>registrations := registrations s @ [WatermarkComplete],
            unlistenCompleteRef := Some (length (registrations s)),
            registerListeners := RegistrationDone\<rparr>
      | _ \<Rightarrow> s)"

definition listenRejected :: "hook \<Rightarrow> hook" where
  "listenRejected s =
     (case registerListeners s of
        AwaitProgressListen \<Rightarrow> s\<lparr>registerListeners := RegistrationFailed\<rparr>
      | AwaitCompleteListen \<Rightarrow> s\<lparr>registerListeners := RegistrationFailed\<rparr>
      | _ \<Rightarrow> s)"

definition cleanup :: "hook \<Rightarrow> hook" where
  "cleanup s =
     (let s1 = s\<lparr>isMounted := False\<rparr>;
          s2 = (case unlistenProgressRef s1 of
                  None \<Rightarrow> s1
                | Some h \<Rightarrow> s1\<lparr>unlistenCalls := unlistenCalls s1 @ [h],
                               unlistenProgressRef := None\<rparr>);
          s3 = (case unlistenCompleteRef s2 of
                  None \<Rightarrow> s2
                | Some h \<Rightarrow> s2\<lparr>unlistenCalls := unlistenCalls s2 @ [h],
                               unlistenCompleteRef := None\<rparr>)
      in s3\<lparr>progress := [], result := None\<rparr>)"

text \<open>
  What can happen to a hook, one event at a time: the effect and its continuations, the
  two operations the hook returns, the settling of a pending \<open>invoke\<close>, and the channel
  calling one of the two callbacks.
\<close>

datatype event =
    Mounts
  | ListenResolves
  | ListenRejects
  | Unmounts
  | CallsProcessBatch "FileItem list" WatermarkConfig string
  | InvokeResolves BatchResult
  | InvokeRejects thrown
  | CallsCancelProcessing
  | ProgressEvent ProgressPayload
  | CompleteEvent BatchResult

fun step :: "event \<Rightarrow> hook \<Rightarrow> hook" where
  "step Mounts s = mount s"
| "step ListenResolves s = listenResolved s"
| "step ListenRejects s = listenRejected s"
| "step Unmounts s = cleanup s"
| "step (CallsProcessBatch fs config outputDir) s = processBatch fs config outputDir s"
| "step (InvokeResolves r) s = invokeResolved r s"
| "step (InvokeRejects err) s = invokeRejected err s"
| "step CallsCancelProcessing s = cancelProcessing s"
| "step (ProgressEvent payload) s = onProgress payload s"
| "step (CompleteEvent payload) s = onComplete payload s"

fun run :: "event list \<Rightarrow> hook \<Rightarrow> hook" where
  "run [] s = s"
| "run (e # es) s = run es (step e s)"

text \<open>
  A registration is live until its handle has been called; \<open>unlisten_count\<close> is how often
  a handle has been called.
\<close>

definition live_registrations :: "hook \<Rightarrow> nat list" where
  "live_registrations s =
     filter (\<lambda>h. h \<notin> set (unlistenCalls s)) [0 ..< length (registrations s)]"

definition unlisten_count :: "hook \<Rightarrow> nat \<Rightarrow> nat" where
  "unlisten_count s h = length (filter (\<lambda>c. c = h) (unlistenCalls s))"

text \<open>
  Events that end the current run: disposal of the hook, and a call of \<open>processBatch\<close>
  that passes validation (it starts the next run). \<open>payloads\<close> lists the progress
  payloads of a trace in the order of delivery.
\<close>

fun ends_run :: "event \<Rightarrow> bool" where
  "ends_run Unmounts = True"
| "ends_run (CallsProcessBatch fs cfg dir) = (validateInputs fs cfg dir = None)"
| "ends_run _ = False"

fun is_complete_event :: "event \<Rightarrow> bool" where
  "is_complete_event (CompleteEvent r) = True"
| "is_complete_event _ = False"

fun payloads :: "event list \<Rightarrow> ProgressPayload list" where
  "payloads [] = []"
| "payloads (ProgressEvent p # es) = p # payloads es"
| "payloads (e # es) = payloads es"

text \<open>
  A well-formed progress store: no key twice, and every entry is filed under the
  \<open>filePath\<close> of its payload.
\<close>

definition consistent :: "(string \<times> ProgressPayload) list \<Rightarrow> bool" where
  "consistent m = (distinct (map fst m) \<and> list_all (\<lambda>e. filePath (snd e) = fst e) m)"

section \<open>The configuration store (src/hooks/useWatermarkStore.ts)\<close>

text \<open>
  The comparisons and \<open>Math.max\<close>/\<open>Math.min\<close> of JavaScript numbers: every comparison
  with NaN is false, and NaN in gives NaN out.
\<close>

fun js_lt :: "jsnum \<Rightarrow> jsnum \<Rightarrow> bool" where
  "js_lt NaN _ = False"
| "js_lt _ NaN = False"
| "js_lt PosInfinity _ = False"
| "js_lt _ NegInfinity = False"
| "js_lt NegInfinity _ = True"
| "js_lt _ PosInfinity = True"
| "js_lt (Fin a) (Fin b) = (a < b)"

definition js_gt :: "jsnum \<Rightarrow> jsnum \<Rightarrow> bool" where
  "js_gt a b = js_lt b a"

definition Math_max :: "jsnum \<Rightarrow> jsnum \<Rightarrow> jsnum" where
  "Math_max a b = (if a = NaN \<or> b = NaN then NaN else if js_lt a b then b else a)"

definition Math_min :: "jsnum \<Rightarrow> jsnum \<Rightarrow> jsnum" where
  "Math_min a b = (if a = NaN \<or> b = NaN then NaN else if js_lt b a then b else a)"

text \<open>
  \<open>Partial<WatermarkConfig>\<close>: \<open>None\<close> is an absent key. The three optional fields of the
  configuration can also be present with the value \<open>undefined\<close> (\<open>Some None\<close>).
\<close>

record PartialConfig =
  p_watermarkType :: "WatermarkType option"
  p_text :: "string option"
  p_imagePath :: "string option option"
  p_position :: "WatermarkPosition option"
  p_opacity :: "int option"
  p_textColor :: "string option"
  p_fontSize :: "int option"
  p_fontFamily :: "string option"
  p_imageScale :: "int option option"
  p_positionMode :: "PositionMode option option"
  p_customPosition :: "(jsnum \<times> jsnum) option option"

definition no_change :: PartialConfig where
  "no_change =
     \<lparr> p_watermarkType = None, p_text = None, p_imagePath = None, p_position = None,
       p_opacity = None, p_textColor = None, p_fontSize = None, p_fontFamily = None,
       p_imageScale = None, p_positionMode = None, p_customPosition = None \<rparr>"

definition override :: "'a \<Rightarrow> 'a option \<Rightarrow> 'a" where
  "override old new = (case new of None \<Rightarrow> old | Some v \<Rightarrow> v)"

text \<open>The object spread \<open>{ ...previous, ...partial }\<close>.\<close>

definition spread :: "WatermarkConfig \<Rightarrow> PartialConfig \<Rightarrow> WatermarkConfig" where
  "spread previous partial =
     \<lparr> watermarkType = override (watermarkType previous) (p_watermarkType partial),
       wm_text = override (wm_text previous) (p_text partial),
       imagePath = override (imagePath previous) (p_imagePath partial),
       position = override (position previous) (p_position partial),
       opacity = override (opacity previous) (p_opacity partial),
       textColor = override (textColor previous) (p_textColor partial),
       fontSize = override (fontSize previous) (p_fontSize partial),
       fontFamily = override (fontFamily previous) (p_fontFamily partial),
       imageScale = override (imageScale previous) (p_imageScale partial),
       positionMode = override (positionMode previous) (p_positionMode partial),
       customPosition = override (customPosition previous) (p_customPosition partial) \<rparr>"

text \<open>
  The React state of the store hook and the two keys it persists (\<open>watermarkConfig\<close> and
  \<open>activePresetId\<close> of the settings file).
\<close>

record settings =
  config :: WatermarkConfig
  activePresetId :: "string option"
  saved_config :: "WatermarkConfig option"
  saved_activePresetId :: "string option"

definition isSubstantialChange :: "PartialConfig \<Rightarrow> bool" where
  "isSubstantialChange partial =
     (p_watermarkType partial \<noteq> None \<or> p_text partial \<noteq> None \<or> p_imagePath partial \<noteq> None
      \<or> p_position partial \<noteq> None \<or> p_opacity partial \<noteq> None \<or> p_textColor partial \<noteq> None
      \<or> p_fontSize partial \<noteq> None \<or> p_fontFamily partial \<noteq> None
      \<or> p_imageScale partial \<noteq> None)"

definition updateConfig :: "PartialConfig \<Rightarrow> settings \<Rightarrow> settings" where
  "updateConfig partial st =
     (let updated = spread (config st) partial;
          updated' =
            (case p_customPosition partial of
               Some (Some (x, y)) \<Rightarrow>
                 if positionMode updated = Some Custom
                 then (if js_lt x (Fin 0) \<or> js_gt x (Fin 1) \<or> js_lt y (Fin 0) \<or> js_gt y (Fin 1)
                       then updated\<lparr>customPosition :=
                              Some (Math_max (Fin 0) (Math_min (Fin 1) x),
                                    Math_max (Fin 0) (Math_min (Fin 1) y))\<rparr>
                       else updated)
                 else updated
             | _ \<Rightarrow> updated);
          clear = (isSubstantialChange partial \<and> truthy (activePresetId st))
      in \<lparr> config = updated',
           activePresetId = (if clear then None else activePresetId st),
           saved_config = Some updated',
           saved_activePresetId = (if clear then None else saved_activePresetId st) \<rparr>)"

text \<open>
  The specification's clamp, in its own words: a component below 0 becomes 0, one above 1
  becomes 1, any other stays. \<open>in_unit\<close> says that a number is a finite value of [0, 1].
\<close>

definition clamp_unit :: "jsnum \<Rightarrow> jsnum" where
  "clamp_unit x = (if js_lt x (Fin 0) then Fin 0 else if js_gt x (Fin 1) then Fin 1 else x)"

definition in_unit :: "jsnum \<Rightarrow> bool" where
  "in_unit x = (case x of Fin r \<Rightarrow> 0 \<le> r \<and> r \<le> 1 | _ \<Rightarrow> False)"

text \<open>The store hook after its first render, before anything was loaded or saved.\<close>

definition initial_settings :: settings where
  "initial_settings =
     \<lparr> config = DEFAULT_WATERMARK_CONFIG, activePresetId = None,
       saved_config = None, saved_activePresetId = None \<rparr>"

section \<open>Fixtures of the hook's tests (useWatermarkProcessor.test.ts)\<close>

definition sampleFiles :: "FileItem list" where
  "sampleFiles =
     [\<lparr>path = ''/input/a.jpg'', name = ''a.jpg'', file_type = ImageFile, file_size = None\<rparr>,
      \<lparr>path = ''/input/b.jpg'', name = ''b.jpg'', file_type = ImageFile, file_size = None\<rparr>]"

definition sampleConfig :: WatermarkConfig where
  "sampleConfig =
     \<lparr> watermarkType = TextType, wm_text = ''Demo'', imagePath = None,
       position = BottomRight, opacity = 80, textColor = ''#ffffff'', fontSize = 32,
       fontFamily = ''Arial'', imageScale = None, positionMode = None,
       customPosition = None \<rparr>"

definition progressA :: "ProgressStatus \<Rightarrow> ProgressPayload" where
  "progressA st = \<lparr> filePath = ''/input/a.jpg'', fileIndex = 0, totalFiles = 2, status = st \<rparr>"

definition progressB :: "ProgressStatus \<Rightarrow> ProgressPayload" where
  "progressB st = \<lparr> filePath = ''/input/b.jpg'', fileIndex = 1, totalFiles = 2, status = st \<rparr>"

definition emptyBatchResult :: BatchResult where
  "emptyBatchResult = \<lparr> files = [], br_total = 0, successful = 0, failed = 0 \<rparr>"

text \<open>
  The hook as the cancellation test has it before it cancels: mounted, both listeners
  registered, a valid batch started and the first progress event delivered.
\<close>

definition running :: hook where
  "running =
     run [Mounts, ListenResolves, ListenResolves,
          CallsProcessBatch sampleFiles sampleConfig ''/output'',
          ProgressEvent (progressA StProcessing)] initial"

section \<open>Validation\<close>

lemma all_dropWhile: "(\<forall>x\<in>set (dropWhile P t). P x) \<longleftrightarrow> (\<forall>c\<in>set t. P c)"
  by (induction t) auto

lemma trim_empty_iff: "trim t = [] \<longleftrightarrow> (\<forall>c\<in>set t. is_whitespace c)"
  by (simp add: trim_def all_dropWhile)

lemma messages_nonempty:
  "noFiles \<noteq> []" "noOutput \<noteq> []" "emptyText \<noteq> []" "missingImage \<noteq> []"
  by (simp_all add: noFiles_def noOutput_def emptyText_def missingImage_def)

lemma validateInputs_truthy: "validateInputs fs cfg dir = Some m \<Longrightarrow> truthy (Some m)"
  by (auto simp: validateInputs_def truthy_def messages_nonempty split: if_splits)

lemma processBatch_invalid:
  assumes "validateInputs fs cfg dir = Some m"
  shows "processBatch fs cfg dir s = s\<lparr>error := Some m, processingState := Error\<rparr>"
  using validateInputs_truthy[OF assms] assms by (simp add: processBatch_def)

lemma processBatch_valid:
  assumes "validateInputs fs cfg dir = None"
  shows "processBatch fs cfg dir s =
    s\<lparr>processingState := Processing, error := None, result := None, progress := [],
      isCancelledRef := False, invokeCalls := invokeCalls s @ [(fs, cfg, dir)]\<rparr>"
  using assms by (simp add: processBatch_def truthy_def)

text \<open>
  C1. \<open>validateInputs\<close> checks in a fixed order and returns the message of the first check
  that fails: an empty file list gives "Add files before processing."; otherwise an empty
  output directory gives "Please select an output directory."; otherwise a text watermark
  whose text is white space only gives "Watermark text cannot be empty."; otherwise an
  image watermark with no image path gives "Select a watermark image before processing.".
  Whenever validation returns a message, \<open>processBatch\<close> leaves the state \<open>error\<close>, stores
  that message and makes no call of \<open>invoke\<close>.
\<close>

theorem validation_order_first_failure:
  "(fs = [] \<longrightarrow> validateInputs fs cfg dir = Some noFiles)
   \<and> (fs \<noteq> [] \<and> dir = [] \<longrightarrow> validateInputs fs cfg dir = Some noOutput)
   \<and> (fs \<noteq> [] \<and> dir \<noteq> [] \<and> watermarkType cfg = TextType
        \<and> (\<forall>c\<in>set (wm_text cfg). is_whitespace c)
      \<longrightarrow> validateInputs fs cfg dir = Some emptyText)
   \<and> (fs \<noteq> [] \<and> dir \<noteq> [] \<and> watermarkType cfg = ImageType \<and> imagePath cfg = None
      \<longrightarrow> validateInputs fs cfg dir = Some missingImage)
   \<and> (\<forall>m. validateInputs fs cfg dir = Some m \<longrightarrow>
         processingState (processBatch fs cfg dir s) = Error
         \<and> error (processBatch fs cfg dir s) = Some m
         \<and> invokeCalls (processBatch fs cfg dir s) = invokeCalls s)"
proof (intro conjI impI allI)
  show "validateInputs fs cfg dir = Some noFiles" if "fs = []"
    using that by (simp add: validateInputs_def)
  show "validateInputs fs cfg dir = Some noOutput" if "fs \<noteq> [] \<and> dir = []"
    using that by (simp add: validateInputs_def)
  show "validateInputs fs cfg dir = Some emptyText"
    if "fs \<noteq> [] \<and> dir \<noteq> [] \<and> watermarkType cfg = TextType
        \<and> (\<forall>c\<in>set (wm_text cfg). is_whitespace c)"
    using that trim_empty_iff[of "wm_text cfg"] by (simp add: validateInputs_def)
  show "validateInputs fs cfg dir = Some missingImage"
    if "fs \<noteq> [] \<and> dir \<noteq> [] \<and> watermarkType cfg = ImageType \<and> imagePath cfg = None"
    using that by (simp add: validateInputs_def truthy_def)
next
  fix m assume v: "validateInputs fs cfg dir = Some m"
  show "processingState (processBatch fs cfg dir s) = Error"
    by (simp add: processBatch_invalid[OF v])
  show "error (processBatch fs cfg dir s) = Some m"
    by (simp add: processBatch_invalid[OF v])
  show "invokeCalls (processBatch fs cfg dir s) = invokeCalls s"
    by (simp add: processBatch_invalid[OF v])
qed

theorem validation_order_first_failure_witness:
  "validateInputs [] sampleConfig ''/output'' = Some ''Add files before processing.''
   \<and> validateInputs sampleFiles sampleConfig [] = Some ''Please select an output directory.''
   \<and> validateInputs sampleFiles (sampleConfig\<lparr>wm_text := [CHR 0x20, CHR 0x09]\<rparr>) ''/output''
       = Some ''Watermark text cannot be empty.''
   \<and> validateInputs sampleFiles (sampleConfig\<lparr>watermarkType := ImageType\<rparr>) ''/output''
       = Some ''Select a watermark image before processing.''
   \<and> processingState (processBatch [] sampleConfig ''/output'' initial) = Error
   \<and> error (processBatch [] sampleConfig ''/output'' initial)
       = Some ''Add files before processing.''
   \<and> invokeCalls (processBatch [] sampleConfig ''/output'' initial) = []"
  using validation_order_first_failure[of "[]" sampleConfig "''/output''" initial]
    validation_order_first_failure[of sampleFiles sampleConfig "[]" initial]
    validation_order_first_failure[of sampleFiles "sampleConfig\<lparr>wm_text := [CHR 0x20, CHR 0x09]\<rparr>"
      "''/output''" initial]
    validation_order_first_failure[of sampleFiles "sampleConfig\<lparr>watermarkType := ImageType\<rparr>"
      "''/output''" initial]
  by (simp add: sampleFiles_def sampleConfig_def is_whitespace_def noFiles_def noOutput_def
      emptyText_def missingImage_def initial_def)

text \<open>
  C8. Validation is deterministic and idempotent: a second \<open>processBatch\<close> with the same
  invalid inputs stores the same message and the state \<open>error\<close> again, changes nothing
  else, and neither call reaches \<open>invoke\<close>.
\<close>

theorem validation_idempotent:
  assumes "validateInputs fs cfg dir = Some m"
  shows "error (processBatch fs cfg dir s) = Some m
    \<and> error (processBatch fs cfg dir (processBatch fs cfg dir s)) = Some m
    \<and> processingState (processBatch fs cfg dir s) = Error
    \<and> processingState (processBatch fs cfg dir (processBatch fs cfg dir s)) = Error
    \<and> invokeCalls (processBatch fs cfg dir s) = invokeCalls s
    \<and> invokeCalls (processBatch fs cfg dir (processBatch fs cfg dir s)) = invokeCalls s
    \<and> processBatch fs cfg dir (processBatch fs cfg dir s) = processBatch fs cfg dir s"
  by (simp add: processBatch_invalid[OF assms])

theorem validation_idempotent_witness:
  "validateInputs sampleFiles sampleConfig [] = Some noOutput
   \<and> error (processBatch sampleFiles sampleConfig []
        (processBatch sampleFiles sampleConfig [] initial)) = Some noOutput
   \<and> processingState (processBatch sampleFiles sampleConfig []
        (processBatch sampleFiles sampleConfig [] initial)) = Error
   \<and> invokeCalls (processBatch sampleFiles sampleConfig []
        (processBatch sampleFiles sampleConfig [] initial)) = []"
proof -
  have v: "validateInputs sampleFiles sampleConfig [] = Some noOutput"
    by (simp add: validateInputs_def sampleFiles_def)
  show ?thesis
    using v validation_idempotent[OF v, of initial] by (simp add: initial_def)
qed

section \<open>Starting a batch\<close>

text \<open>
  C5. When the inputs pass validation, \<open>processBatch\<close> reaches its call of \<open>invoke\<close> with
  the state \<open>processing\<close>, an empty progress map, no result, no error and the cancellation
  flag cleared, whatever an earlier run left behind; the call is made with the given
  arguments.
\<close>

theorem valid_start_resets:
  assumes "validateInputs fs cfg dir = None"
  shows "processingState (processBatch fs cfg dir s) = Processing
    \<and> progress (processBatch fs cfg dir s) = []
    \<and> result (processBatch fs cfg dir s) = None
    \<and> error (processBatch fs cfg dir s) = None
    \<and> \<not> isCancelledRef (processBatch fs cfg dir s)
    \<and> invokeCalls (processBatch fs cfg dir s) = invokeCalls s @ [(fs, cfg, dir)]"
  by (simp add: processBatch_valid[OF assms])

theorem valid_start_resets_witness:
  "validateInputs sampleFiles sampleConfig ''/output'' = None
   \<and> processingState (processBatch sampleFiles sampleConfig ''/output''
        (initial\<lparr>processingState := Cancelled,
           progress := [(''/input/a.jpg'', progressA StError)],
           result := Some emptyBatchResult, error := Some noFiles,
           isCancelledRef := True\<rparr>)) = Processing
   \<and> progress (processBatch sampleFiles sampleConfig ''/output''
        (initial\<lparr>processingState := Cancelled,
           progress := [(''/input/a.jpg'', progressA StError)],
           result := Some emptyBatchResult, error := Some noFiles,
           isCancelledRef := True\<rparr>)) = []
   \<and> \<not> isCancelledRef (processBatch sampleFiles sampleConfig ''/output''
        (initial\<lparr>processingState := Cancelled,
           progress := [(''/input/a.jpg'', progressA StError)],
           result := Some emptyBatchResult, error := Some noFiles,
           isCancelledRef := True\<rparr>))"
proof -
  have v: "validateInputs sampleFiles sampleConfig ''/output'' = None"
    by (simp add: validateInputs_def sampleFiles_def sampleConfig_def trim_def
        is_whitespace_def)
  show ?thesis
    using v valid_start_resets[OF v] by simp
qed

lemma run_append: "run (xs @ ys) s = run ys (run xs s)"
  by (induction xs arbitrary: s) auto

lemma step_result_None:
  "\<not> is_complete_event e \<Longrightarrow> result s = None \<Longrightarrow> result (step e s) = None"
  by (cases e)
     (auto simp: mount_def listenResolved_def listenRejected_def cleanup_def Let_def
       processBatch_def invokeResolved_def invokeRejected_def cancelProcessing_def
       onProgress_def split: registration.splits option.splits)

lemma run_result_None:
  "\<forall>e\<in>set evs. \<not> is_complete_event e \<Longrightarrow> result s = None \<Longrightarrow> result (run evs s) = None"
  by (induction evs arbitrary: s) (auto simp: step_result_None)

text \<open>
  C3. A batch that passes validation and whose \<open>invoke\<close> is then rejected ends in the
  state \<open>error\<close> with the message of the rejection as the error, whatever happened between
  the call and the rejection: the \<open>message\<close> of a rejected \<open>Error\<close> object, and for any
  other rejected value (a string, as a backend command rejects) its string conversion.
  No result is recorded for the run: as long as no terminal batch-result event was
  delivered in between (a rejected batch produces none), the result is still empty after
  the rejection.
\<close>

theorem rejected_invoke_sets_error:
  assumes "validateInputs fs cfg dir = None"
  shows "processingState
       (run (CallsProcessBatch fs cfg dir # evs @ [InvokeRejects (ErrorObject m)]) s) = Error
    \<and> error (run (CallsProcessBatch fs cfg dir # evs @ [InvokeRejects (ErrorObject m)]) s)
        = Some m
    \<and> processingState
       (run (CallsProcessBatch fs cfg dir # evs @ [InvokeRejects (OtherValue v)]) s) = Error
    \<and> error (run (CallsProcessBatch fs cfg dir # evs @ [InvokeRejects (OtherValue v)]) s)
        = Some v
    \<and> ((\<forall>e\<in>set evs. \<not> is_complete_event e) \<longrightarrow>
          result (run (CallsProcessBatch fs cfg dir # evs @ [InvokeRejects (ErrorObject m)]) s)
            = None
          \<and> result (run (CallsProcessBatch fs cfg dir # evs @ [InvokeRejects (OtherValue v)]) s)
            = None)"
proof -
  have r: "result (processBatch fs cfg dir s) = None"
    by (simp add: processBatch_valid[OF assms(1)])
  have "result (run evs (processBatch fs cfg dir s)) = None"
    if "\<forall>e\<in>set evs. \<not> is_complete_event e"
    using that r by (rule run_result_None)
  then show ?thesis
    by (simp add: run_append invokeRejected_def)
qed

theorem rejected_invoke_sets_error_witness:
  "validateInputs sampleFiles sampleConfig ''/output'' = None
   \<and> processingState (run [CallsProcessBatch sampleFiles sampleConfig ''/output'',
          ProgressEvent (progressA StProcessing), CallsCancelProcessing,
          InvokeRejects (ErrorObject ''FFmpeg binary not found'')] (mount initial)) = Error
   \<and> error (run [CallsProcessBatch sampleFiles sampleConfig ''/output'',
          ProgressEvent (progressA StProcessing), CallsCancelProcessing,
          InvokeRejects (ErrorObject ''FFmpeg binary not found'')] (mount initial))
       = Some ''FFmpeg binary not found''
   \<and> result (run [CallsProcessBatch sampleFiles sampleConfig ''/output'',
          ProgressEvent (progressA StProcessing), CallsCancelProcessing,
          InvokeRejects (ErrorObject ''FFmpeg binary not found'')] (mount initial)) = None
   \<and> processingState (run [CallsProcessBatch sampleFiles sampleConfig ''/output'',
          ProgressEvent (progressA StProcessing), CallsCancelProcessing,
          InvokeRejects (OtherValue ''Unable to create output directory'')] (mount initial))
       = Error
   \<and> error (run [CallsProcessBatch sampleFiles sampleConfig ''/output'',
          ProgressEvent (progressA StProcessing), CallsCancelProcessing,
          InvokeRejects (OtherValue ''Unable to create output directory'')] (mount initial))
       = Some ''Unable to create output directory''
   \<and> result (run [CallsProcessBatch sampleFiles sampleConfig ''/output'',
          ProgressEvent (progressA StProcessing), CallsCancelProcessing,
          InvokeRejects (OtherValue ''Unable to create output directory'')] (mount initial))
       = None"
proof -
  have v: "validateInputs sampleFiles sampleConfig ''/output'' = None"
    by (simp add: validateInputs_def sampleFiles_def sampleConfig_def trim_def
        is_whitespace_def)
  have e: "\<forall>e\<in>set [ProgressEvent (progressA StProcessing), CallsCancelProcessing].
      \<not> is_complete_event e"
    by simp
  from rejected_invoke_sets_error[OF v,
      of "[ProgressEvent (progressA StProcessing), CallsCancelProcessing]"
      "''FFmpeg binary not found''" "mount initial" "''Unable to create output directory''"]
    v e
  show ?thesis by simp
qed

section \<open>The terminal event and cancellation\<close>

text \<open>
  C10. A batch-complete event received while the hook is mounted and the cancellation
  flag is not set stores the payload as the result and sets the state to \<open>complete\<close>,
  whatever the state was before (nothing is assumed about it).
\<close>

theorem complete_event_completes:
  assumes "isMounted s" and "\<not> isCancelledRef s"
  shows "result (step (CompleteEvent r) s) = Some r
    \<and> processingState (step (CompleteEvent r) s) = Complete"
  using assms by (simp add: onComplete_def)

theorem complete_event_completes_witness:
  "isMounted (mount initial) \<and> \<not> isCancelledRef (mount initial)
   \<and> processingState (mount initial) = Idle
   \<and> result (step (CompleteEvent emptyBatchResult) (mount initial)) = Some emptyBatchResult
   \<and> processingState (step (CompleteEvent emptyBatchResult) (mount initial)) = Complete"
proof -
  have m: "isMounted (mount initial)" and c: "\<not> isCancelledRef (mount initial)"
    by (simp_all add: mount_def initial_def)
  from complete_event_completes[OF m c, of emptyBatchResult] m c show ?thesis
    by (simp add: mount_def initial_def)
qed

lemma step_keeps_cancelled:
  assumes "\<not> ends_run e" and "isCancelledRef s" and "isMounted s"
  shows "isCancelledRef (step e s) \<and> isMounted (step e s) \<and> progress (step e s) = progress s"
proof (cases e)
  case (CallsProcessBatch fs cfg dir)
  with assms(1) obtain m where "validateInputs fs cfg dir = Some m" by auto
  with CallsProcessBatch assms(2,3) show ?thesis
    by (simp add: processBatch_invalid)
qed (use assms in \<open>auto simp: mount_def listenResolved_def listenRejected_def
       invokeResolved_def invokeRejected_def cancelProcessing_def
       onProgress_def onComplete_def split: registration.splits\<close>)

lemma run_keeps_cancelled:
  assumes "\<forall>e\<in>set evs. \<not> ends_run e" and "isCancelledRef s" and "isMounted s"
  shows "isCancelledRef (run evs s) \<and> isMounted (run evs s) \<and> progress (run evs s) = progress s"
  using assms
proof (induction evs arbitrary: s)
  case Nil
  then show ?case by simp
next
  case (Cons e evs)
  from Cons.prems have e: "\<not> ends_run e" and rest: "\<forall>e\<in>set evs. \<not> ends_run e" by auto
  note k = step_keeps_cancelled[OF e Cons.prems(2,3)]
  from Cons.IH[OF rest] k show ?case by simp
qed

text \<open>
  C2. When \<open>cancelProcessing\<close> is called on a mounted hook in the state \<open>processing\<close>,
  nothing delivered afterwards in the same run changes the progress map (every later
  progress event is discarded), and a terminal batch-result event stores its payload as
  the result while the state resolves to \<open>cancelled\<close>, whatever the payload says and
  whatever else happened in between (further progress or terminal events, the pending
  \<open>invoke\<close> settling either way, rejected calls of \<open>processBatch\<close>).
\<close>

theorem cancel_discards_progress:
  assumes "processingState s = Processing" and "isMounted s"
    and "\<forall>e\<in>set evs. \<not> ends_run e"
  shows "progress (run (CallsCancelProcessing # evs) s) = progress s
    \<and> progress (run (CallsCancelProcessing # evs @ [CompleteEvent r]) s) = progress s
    \<and> result (run (CallsCancelProcessing # evs @ [CompleteEvent r]) s) = Some r
    \<and> processingState (run (CallsCancelProcessing # evs @ [CompleteEvent r]) s) = Cancelled"
proof -
  let ?c = "cancelProcessing s"
  have c: "isCancelledRef ?c" "isMounted ?c" "progress ?c = progress s"
    using assms(1,2) by (simp_all add: cancelProcessing_def)
  note k = run_keeps_cancelled[OF assms(3) c(1,2)]
  from k c(3) show ?thesis
    by (simp add: run_append onComplete_def)
qed

lemma sample_inputs_valid: "validateInputs sampleFiles sampleConfig ''/output'' = None"
  by (simp add: validateInputs_def sampleFiles_def sampleConfig_def trim_def is_whitespace_def)

lemma running_state:
  "running = initial\<lparr>processingState := Processing,
     progress := [(''/input/a.jpg'', progressA StProcessing)],
     unlistenProgressRef := Some 0, unlistenCompleteRef := Some 1, isMounted := True,
     registerListeners := RegistrationDone,
     invokeCalls := [(sampleFiles, sampleConfig, ''/output'')],
     registrations := [WatermarkProgress, WatermarkComplete]\<rparr>"
  by (simp add: running_def processBatch_valid[OF sample_inputs_valid] mount_def
      listenResolved_def onProgress_def initial_def progressA_def)

theorem cancel_discards_progress_witness:
  "processingState running = Processing \<and> isMounted running
   \<and> progress (run [CallsCancelProcessing, ProgressEvent (progressA StComplete),
        ProgressEvent (progressB StProcessing), InvokeResolves emptyBatchResult] running)
      = [(''/input/a.jpg'', progressA StProcessing)]
   \<and> result (run [CallsCancelProcessing, ProgressEvent (progressA StComplete),
        ProgressEvent (progressB StProcessing), InvokeResolves emptyBatchResult,
        CompleteEvent emptyBatchResult] running) = Some emptyBatchResult
   \<and> processingState (run [CallsCancelProcessing, ProgressEvent (progressA StComplete),
        ProgressEvent (progressB StProcessing), InvokeResolves emptyBatchResult,
        CompleteEvent emptyBatchResult] running) = Cancelled"
proof -
  have p: "processingState running = Processing" and m: "isMounted running"
    by (simp_all add: running_state initial_def)
  have e: "\<forall>e\<in>set [ProgressEvent (progressA StComplete),
      ProgressEvent (progressB StProcessing), InvokeResolves emptyBatchResult]. \<not> ends_run e"
    by simp
  have g: "progress running = [(''/input/a.jpg'', progressA StProcessing)]"
    by (simp add: running_state)
  from cancel_discards_progress[OF p m e, of emptyBatchResult] p m g show ?thesis
    by simp
qed

section \<open>The progress store\<close>

lemma set_map_set: "set (map_set k v m) \<subseteq> insert (k, v) (set m)"
  by (induction m) auto

lemma keys_map_set: "fst ` set (map_set k v m) = insert k (fst ` set m)"
  by (induction m) auto

lemma distinct_map_set: "distinct (map fst m) \<Longrightarrow> distinct (map fst (map_set k v m))"
proof (induction m)
  case Nil
  then show ?case by simp
next
  case (Cons e m)
  show ?case
  proof (cases "fst e = k")
    case True
    with Cons.prems show ?thesis by simp
  next
    case False
    with Cons have "distinct (map fst (map_set k v m))" "fst e \<notin> fst ` set m" by auto
    with False show ?thesis using keys_map_set[of k v m] by auto
  qed
qed

lemma map_of_map_set: "map_of (map_set k v m) = (map_of m)(k \<mapsto> v)"
  by (induction m) (auto simp: fun_eq_iff)

lemma consistent_map_set: "consistent m \<Longrightarrow> consistent (map_set (filePath p) p m)"
  unfolding consistent_def list_all_iff
  using set_map_set[of "filePath p" p m] by (auto simp: distinct_map_set)

lemma consistent_step: "consistent (progress s) \<Longrightarrow> consistent (progress (step e s))"
proof (cases e)
  case (ProgressEvent p)
  assume "consistent (progress s)"
  with ProgressEvent show ?thesis by (simp add: onProgress_def consistent_map_set)
next
  case Unmounts
  then show ?thesis by (simp add: cleanup_def Let_def consistent_def split: option.splits)
next
  case (CallsProcessBatch fs cfg dir)
  assume "consistent (progress s)"
  with CallsProcessBatch show ?thesis by (simp add: processBatch_def Let_def consistent_def)
qed (auto simp: mount_def listenResolved_def listenRejected_def invokeResolved_def
      invokeRejected_def cancelProcessing_def onComplete_def split: registration.splits)

lemma consistent_run: "consistent (progress s) \<Longrightarrow> consistent (progress (run evs s))"
  by (induction evs arbitrary: s) (auto simp: consistent_step)

lemma listening_step:
  assumes "\<not> ends_run e" "e \<noteq> CallsCancelProcessing" "isMounted s" "\<not> isCancelledRef s"
  shows "isMounted (step e s) \<and> \<not> isCancelledRef (step e s)"
proof (cases e)
  case (CallsProcessBatch fs cfg dir)
  with assms(1) obtain m where "validateInputs fs cfg dir = Some m" by auto
  with CallsProcessBatch assms(3,4) show ?thesis by (simp add: processBatch_invalid)
qed (use assms in \<open>auto simp: mount_def listenResolved_def listenRejected_def
       invokeResolved_def invokeRejected_def onProgress_def onComplete_def
       split: registration.splits\<close>)

lemma progress_step_other:
  assumes "\<not> ends_run e" "\<forall>p. e \<noteq> ProgressEvent p"
  shows "progress (step e s) = progress s"
proof (cases e)
  case (CallsProcessBatch fs cfg dir)
  with assms(1) obtain m where "validateInputs fs cfg dir = Some m" by auto
  with CallsProcessBatch show ?thesis by (simp add: processBatch_invalid)
qed (use assms in \<open>auto simp: mount_def listenResolved_def listenRejected_def
       invokeResolved_def invokeRejected_def cancelProcessing_def onComplete_def
       split: registration.splits\<close>)

lemma payloads_other: "\<forall>p. e \<noteq> ProgressEvent p \<Longrightarrow> payloads (e # es) = payloads es"
  by (cases e) auto

lemma last_payload_wins:
  assumes "isMounted s" "\<not> isCancelledRef s"
    and "\<forall>e\<in>set evs. \<not> ends_run e \<and> e \<noteq> CallsCancelProcessing"
  shows "map_of (progress (run evs s)) k =
     (if filter (\<lambda>p. filePath p = k) (payloads evs) = [] then map_of (progress s) k
      else Some (last (filter (\<lambda>p. filePath p = k) (payloads evs))))"
  using assms
proof (induction evs arbitrary: s)
  case Nil
  then show ?case by simp
next
  case (Cons e evs)
  from Cons.prems have e: "\<not> ends_run e" "e \<noteq> CallsCancelProcessing"
    and rest: "\<forall>e\<in>set evs. \<not> ends_run e \<and> e \<noteq> CallsCancelProcessing" by auto
  from listening_step[OF e Cons.prems(1,2)]
  have l: "isMounted (step e s)" "\<not> isCancelledRef (step e s)" by auto
  note IH = Cons.IH[OF l rest]
  show ?case
  proof (cases "\<exists>p. e = ProgressEvent p")
    case True
    then obtain p where p: "e = ProgressEvent p" by auto
    with Cons.prems(1,2) have "progress (step e s) = map_set (filePath p) p (progress s)"
      by (simp add: onProgress_def)
    with IH p show ?thesis by (simp add: map_of_map_set)
  next
    case False
    then have o: "\<forall>p. e \<noteq> ProgressEvent p" by auto
    from IH show ?thesis
      by (simp add: progress_step_other[OF e(1) o] payloads_other[OF o])
  qed
qed

text \<open>
  C6. After any sequence of events from the first render, the progress store has no
  file path twice and files every payload under its own path, and \<open>progressArray\<close> lists
  exactly the stored payloads in nondecreasing \<open>fileIndex\<close> order. The payload stored for a
  path is the last one observed for it: while the hook listens (mounted, not cancelled,
  the run neither ended nor cancelled by the events in between), the entry of a path is
  the last progress payload delivered for that path, or what the store held before when
  none was delivered.
\<close>

theorem progress_store_last_payload_sorted:
  "distinct (map fst (progress (run evs initial)))
   \<and> (\<forall>e\<in>set (progress (run evs initial)). filePath (snd e) = fst e)
   \<and> sorted (map fileIndex (progressArray (run evs initial)))
   \<and> set (progressArray (run evs initial)) = snd ` set (progress (run evs initial))
   \<and> length (progressArray (run evs initial)) = length (progress (run evs initial))
   \<and> (isMounted s \<and> \<not> isCancelledRef s
        \<and> (\<forall>e\<in>set evs'. \<not> ends_run e \<and> e \<noteq> CallsCancelProcessing)
      \<longrightarrow> map_of (progress (run evs' s)) k =
           (if filter (\<lambda>p. filePath p = k) (payloads evs') = [] then map_of (progress s) k
            else Some (last (filter (\<lambda>p. filePath p = k) (payloads evs')))))"
proof -
  have "consistent (progress initial)" by (simp add: initial_def consistent_def)
  then have c: "consistent (progress (run evs initial))" by (rule consistent_run)
  have 1: "distinct (map fst (progress (run evs initial)))"
    using c by (simp add: consistent_def)
  have 2: "\<forall>e\<in>set (progress (run evs initial)). filePath (snd e) = fst e"
    using c by (simp add: consistent_def list_all_iff)
  have 3: "sorted (map fileIndex (progressArray (run evs initial)))"
    by (simp add: progressArray_def)
  have 4: "set (progressArray (run evs initial)) = snd ` set (progress (run evs initial))"
    by (simp add: progressArray_def)
  have 5: "length (progressArray (run evs initial)) = length (progress (run evs initial))"
    by (simp add: progressArray_def)
  from 1 2 3 4 5 last_payload_wins[of s evs' k] show ?thesis by blast
qed

theorem progress_store_last_payload_sorted_witness:
  "isMounted running \<and> \<not> isCancelledRef running
   \<and> map_of (progress (run [ProgressEvent (progressB StProcessing),
        ProgressEvent (progressA StComplete), InvokeResolves emptyBatchResult,
        ProgressEvent (progressB StError)] running)) ''/input/b.jpg''
      = Some (progressB StError)
   \<and> map fst (progress (run [Mounts, ListenResolves, ListenResolves,
        CallsProcessBatch sampleFiles sampleConfig ''/output'',
        ProgressEvent (progressA StProcessing)] initial)) = [''/input/a.jpg'']"
proof -
  have m: "isMounted running" and c: "\<not> isCancelledRef running"
    by (simp_all add: running_state initial_def)
  have e: "\<forall>e\<in>set [ProgressEvent (progressB StProcessing),
      ProgressEvent (progressA StComplete), InvokeResolves emptyBatchResult,
      ProgressEvent (progressB StError)]. \<not> ends_run e \<and> e \<noteq> CallsCancelProcessing"
    by simp
  have r: "run [Mounts, ListenResolves, ListenResolves,
        CallsProcessBatch sampleFiles sampleConfig ''/output'',
        ProgressEvent (progressA StProcessing)] initial = running"
    by (simp add: running_def)
  from progress_store_last_payload_sorted[of "[Mounts, ListenResolves, ListenResolves,
        CallsProcessBatch sampleFiles sampleConfig ''/output'',
        ProgressEvent (progressA StProcessing)]" running
      "[ProgressEvent (progressB StProcessing),
        ProgressEvent (progressA StComplete), InvokeResolves emptyBatchResult,
        ProgressEvent (progressB StError)]" "''/input/b.jpg''"] m c e
  have "map_of (progress (run [ProgressEvent (progressB StProcessing),
        ProgressEvent (progressA StComplete), InvokeResolves emptyBatchResult,
        ProgressEvent (progressB StError)] running)) ''/input/b.jpg''
      = Some (progressB StError)"
    by (simp add: progressA_def progressB_def)
  with m c show ?thesis
    unfolding r by (simp add: running_state)
qed

section \<open>Cleanup of the event registrations\<close>

text \<open>
  C9. Disposal is meant to call every handle that \<open>listen\<close> has issued exactly once, and
  it does so when both registrations have completed before the unmount (third trace).
  When the unmount comes while a \<open>listen\<close> is still pending, the cleanup finds the ref
  still empty, and \<open>registerListeners\<close> goes on after the unmount: both registrations stay
  live and no handle is ever called (first trace); when the unmount falls between the
  two, the second registration stays live (second trace).
\<close>

theorem cleanup_misses_pending_registrations:
  "live_registrations (run [Mounts, Unmounts, ListenResolves, ListenResolves] initial) = [0, 1]
   \<and> unlistenCalls (run [Mounts, Unmounts, ListenResolves, ListenResolves] initial) = []
   \<and> registrations (run [Mounts, Unmounts, ListenResolves, ListenResolves] initial)
       = [WatermarkProgress, WatermarkComplete]
   \<and> live_registrations (run [Mounts, ListenResolves, Unmounts, ListenResolves] initial) = [1]
   \<and> unlisten_count (run [Mounts, ListenResolves, Unmounts, ListenResolves] initial) 1 = 0
   \<and> live_registrations (run [Mounts, ListenResolves, ListenResolves, Unmounts] initial) = []
   \<and> unlisten_count (run [Mounts, ListenResolves, ListenResolves, Unmounts] initial) 0 = 1
   \<and> unlisten_count (run [Mounts, ListenResolves, ListenResolves, Unmounts] initial) 1 = 1"
  by (simp add: initial_def mount_def cleanup_def listenResolved_def live_registrations_def
      unlisten_count_def)

section \<open>File classification\<close>

lemma split_path_nonempty: "split_path p \<noteq> []"
  by (induction p) (auto split: list.splits)

lemma split_path_plain: "\<forall>c\<in>set p. \<not> is_separator c \<Longrightarrow> split_path p = [p]"
  by (induction p) auto

lemma length_split_path: "length (split_path p) = Suc (length (filter is_separator p))"
proof (induction p)
  case Nil
  show ?case by simp
next
  case (Cons c cs)
  then show ?case by (cases "split_path cs") auto
qed

lemma last_split_path_Cons:
  "last (split_path (c # cs)) =
     (if filter is_separator cs = [] \<and> \<not> is_separator c then c # last (split_path cs)
      else last (split_path cs))"
proof (cases "split_path cs")
  case Nil
  with split_path_nonempty show ?thesis by blast
next
  case (Cons seg rest)
  with length_split_path[of cs] have "rest = [] \<longleftrightarrow> filter is_separator cs = []"
    by auto
  with Cons show ?thesis by auto
qed

lemma last_split_path_after:
  "is_separator c \<Longrightarrow> last (split_path (xs @ c # ys)) = last (split_path ys)"
proof (induction xs)
  case Nil
  then show ?case by (simp add: split_path_nonempty)
next
  case (Cons x xs)
  from Cons.prems have "filter is_separator (xs @ c # ys) \<noteq> []" by simp
  with Cons show ?case by (simp only: append_Cons last_split_path_Cons) simp
qed

lemma last_split_path:
  "last (split_path p) = rev (takeWhile (\<lambda>c. \<not> is_separator c) (rev p))"
proof (cases "\<exists>c\<in>set p. is_separator c")
  case False
  then have a: "\<forall>c\<in>set p. \<not> is_separator c" by blast
  then have tw: "takeWhile (\<lambda>c. \<not> is_separator c) (rev p) = rev p"
    by (simp add: takeWhile_eq_all_conv)
  show ?thesis unfolding tw split_path_plain[OF a] by simp
next
  case True
  then obtain xs c ys where p: "p = xs @ c # ys" and c: "is_separator c"
    and ys: "\<forall>y\<in>set ys. \<not> is_separator y"
    using split_list_last_prop[of p is_separator] by blast
  have tw: "takeWhile (\<lambda>c. \<not> is_separator c) (rev ys @ c # rev xs) = rev ys"
    using c ys by (simp add: takeWhile_append)
  have "last (split_path p) = ys"
    unfolding p last_split_path_after[OF c] split_path_plain[OF ys] by simp
  moreover have "rev (takeWhile (\<lambda>c. \<not> is_separator c) (rev p)) = ys"
    unfolding p using tw by simp
  ultimately show ?thesis by simp
qed

lemma name_toFileItem: "name (toFileItem p) = last (split_path p)"
  by (cases "split_path p") (simp_all add: toFileItem_def Let_def split_path_nonempty)

lemma video_not_image: "e \<in> set VIDEO_EXTENSIONS \<Longrightarrow> e \<notin> set IMAGE_EXTENSIONS"
  by (auto simp: VIDEO_EXTENSIONS_def IMAGE_EXTENSIONS_def)

text \<open>
  C4, as the claim states it, fails: \<open>toFileItem\<close> gives every path a media kind, and a
  path whose extension is in neither list (here \<open>txt\<close>) is classified as a video.
\<close>

theorem unsupported_extension_is_video:
  "file_type (toFileItem ''/input/notes.txt'') = VideoFile
   \<and> getExtension (name (toFileItem ''/input/notes.txt'')) = ''txt''
   \<and> ''txt'' \<notin> set VIDEO_EXTENSIONS \<and> ''txt'' \<notin> set IMAGE_EXTENSIONS"
  by code_simp

lemma toLowerCase_char_small:
  assumes "small d"
  shows "toLowerCase_char c = d \<longleftrightarrow>
     (c = d \<or> (65 \<le> (of_char c :: nat) \<and> (of_char c :: nat) \<le> 90
               \<and> (of_char d :: nat) = of_char c + 32))"
proof -
  let ?n = "of_char c :: nat"
  have lt: "?n < 256" by simp
  have eq: "char_of (?n + 32) = d \<longleftrightarrow> (of_char d :: nat) = (?n + 32) mod 256"
    by (metis char_of_char of_char_of)
  consider (ascii) "65 \<le> ?n \<and> ?n \<le> 90"
    | (latin) "192 \<le> ?n \<and> ?n \<le> 222 \<and> ?n \<noteq> 215"
    | (other) "\<not> (65 \<le> ?n \<and> ?n \<le> 90) \<and> \<not> (192 \<le> ?n \<and> ?n \<le> 222 \<and> ?n \<noteq> 215)"
    by blast
  then show ?thesis
  proof cases
    case ascii
    then have "c \<noteq> d" using assms by (auto simp: small_def)
    with ascii eq show ?thesis by (simp add: toLowerCase_char_def Let_def)
  next
    case latin
    then have "c \<noteq> d" using assms by (auto simp: small_def)
    moreover have "(of_char d :: nat) \<noteq> (?n + 32) mod 256"
      using latin assms by (auto simp: small_def)
    ultimately show ?thesis using latin eq by (simp add: toLowerCase_char_def Let_def)
  next
    case other
    then show ?thesis by (auto simp: toLowerCase_char_def Let_def)
  qed
qed

lemma toLowerCase_small:
  "list_all small e \<Longrightarrow> toLowerCase ext = e \<longleftrightarrow> same_ignoring_case ext e"
proof (induction ext arbitrary: e)
  case Nil
  then show ?case by (auto simp: toLowerCase_def same_ignoring_case_def)
next
  case (Cons c ext)
  show ?case
  proof (cases e)
    case Nil
    then show ?thesis by (simp add: toLowerCase_def same_ignoring_case_def)
  next
    case (Cons d e')
    with Cons.prems have d: "small d" and e': "list_all small e'" by auto
    from Cons.IH[OF e'] toLowerCase_char_small[OF d, of c] Cons show ?thesis
      by (simp add: toLowerCase_def same_ignoring_case_def)
  qed
qed

lemma getExtension_split:
  assumes "n = stem @ CHR ''.'' # ext" "ext \<noteq> []" "CHR ''.'' \<notin> set ext"
  shows "getExtension n = toLowerCase ext"
proof -
  have "takeWhile (\<lambda>c. c \<noteq> CHR ''.'') (rev ext @ CHR ''.'' # rev stem) = rev ext"
    using assms(3) by (simp add: takeWhile_append)
  with assms show ?thesis by (simp add: getExtension_def)
qed

lemma getExtension_nonempty:
  assumes "getExtension n \<noteq> []"
  shows "\<exists>stem ext. n = stem @ CHR ''.'' # ext \<and> ext \<noteq> [] \<and> CHR ''.'' \<notin> set ext
           \<and> getExtension n = toLowerCase ext"
proof -
  from assms have dot: "CHR ''.'' \<in> set n"
    by (auto simp: getExtension_def Let_def split: if_splits)
  then obtain stem ext where n: "n = stem @ CHR ''.'' # ext" and ext: "CHR ''.'' \<notin> set ext"
    using split_list_last[of "CHR ''.''" n] by blast
  have "ext \<noteq> []"
  proof
    assume "ext = []"
    with n have "getExtension n = []" by (simp add: getExtension_def)
    with assms show False by simp
  qed
  with n ext getExtension_split[OF n this ext] show ?thesis by blast
qed

lemma image_names_small: "\<forall>e\<in>set IMAGE_EXTENSIONS. list_all small e \<and> e \<noteq> []"
  by code_simp

lemma video_names_small: "\<forall>e\<in>set VIDEO_EXTENSIONS. list_all small e \<and> e \<noteq> []"
  by code_simp

lemma extension_in_list:
  assumes "\<forall>e\<in>set L. list_all small e \<and> e \<noteq> []" and "set L = S"
  shows "getExtension n \<in> set L \<longleftrightarrow>
     (\<exists>stem ext e. n = stem @ CHR ''.'' # ext \<and> ext \<noteq> [] \<and> CHR ''.'' \<notin> set ext
        \<and> e \<in> S \<and> same_ignoring_case ext e)"
proof
  assume m: "getExtension n \<in> set L"
  with assms have "getExtension n \<noteq> []" and s: "list_all small (getExtension n)" by auto
  from getExtension_nonempty[OF this(1)] obtain stem ext where
    x: "n = stem @ CHR ''.'' # ext" "ext \<noteq> []" "CHR ''.'' \<notin> set ext"
       "getExtension n = toLowerCase ext" by blast
  from toLowerCase_small[OF s, of ext] x(4) have "same_ignoring_case ext (getExtension n)"
    by simp
  with x m assms(2) show "\<exists>stem ext e. n = stem @ CHR ''.'' # ext \<and> ext \<noteq> []
        \<and> CHR ''.'' \<notin> set ext \<and> e \<in> S \<and> same_ignoring_case ext e" by blast
next
  assume "\<exists>stem ext e. n = stem @ CHR ''.'' # ext \<and> ext \<noteq> [] \<and> CHR ''.'' \<notin> set ext
        \<and> e \<in> S \<and> same_ignoring_case ext e"
  then obtain stem ext e where x: "n = stem @ CHR ''.'' # ext" "ext \<noteq> []"
    "CHR ''.'' \<notin> set ext" "e \<in> S" "same_ignoring_case ext e" by blast
  from x(4) assms have e: "e \<in> set L" and "list_all small e" by auto
  from toLowerCase_small[OF this(2), of ext] x(5) have "toLowerCase ext = e" by simp
  with getExtension_split[OF x(1,2,3)] e show "getExtension n \<in> set L" by simp
qed

lemma name_literal:
  "name (toFileItem p) = rev (takeWhile (\<lambda>c. c \<noteq> CHR ''/'' \<and> c \<noteq> CHR 0x5C) (rev p))"
  by (simp add: name_toFileItem last_split_path is_separator_def)

text \<open>
  C4, amended. The name of a file item is the part of the path after its last slash or
  backslash. The item is an image exactly when that name ends in a dot followed by a
  non-empty, dot-free extension that is, up to the case of its ASCII letters, one of png,
  jpg, jpeg, gif, bmp, webp; it is a video in every other case, in particular when the
  extension is one of mp4, avi, mov, mkv, webm, flv. Classification never fails.
\<close>

theorem classification_by_image_extension:
  "name (toFileItem p) = rev (takeWhile (\<lambda>c. c \<noteq> CHR ''/'' \<and> c \<noteq> CHR 0x5C) (rev p))
   \<and> (file_type (toFileItem p) = ImageFile \<longleftrightarrow>
        (\<exists>stem ext e. name (toFileItem p) = stem @ CHR ''.'' # ext \<and> ext \<noteq> []
           \<and> CHR ''.'' \<notin> set ext
           \<and> e \<in> {''png'', ''jpg'', ''jpeg'', ''gif'', ''bmp'', ''webp''}
           \<and> same_ignoring_case ext e))
   \<and> (file_type (toFileItem p) = VideoFile \<longleftrightarrow>
        \<not> (\<exists>stem ext e. name (toFileItem p) = stem @ CHR ''.'' # ext \<and> ext \<noteq> []
           \<and> CHR ''.'' \<notin> set ext
           \<and> e \<in> {''png'', ''jpg'', ''jpeg'', ''gif'', ''bmp'', ''webp''}
           \<and> same_ignoring_case ext e))
   \<and> ((\<exists>stem ext e. name (toFileItem p) = stem @ CHR ''.'' # ext \<and> ext \<noteq> []
           \<and> CHR ''.'' \<notin> set ext
           \<and> e \<in> {''mp4'', ''avi'', ''mov'', ''mkv'', ''webm'', ''flv''}
           \<and> same_ignoring_case ext e)
        \<longrightarrow> file_type (toFileItem p) = VideoFile)"
proof (intro conjI)
  let ?n = "name (toFileItem p)"
  have t: "file_type (toFileItem p) =
      (if getExtension ?n \<in> set IMAGE_EXTENSIONS then ImageFile else VideoFile)"
    by (simp add: toFileItem_def Let_def)
  have il: "set IMAGE_EXTENSIONS = {''png'', ''jpg'', ''jpeg'', ''gif'', ''bmp'', ''webp''}"
    by (simp add: IMAGE_EXTENSIONS_def)
  have vl: "set VIDEO_EXTENSIONS = {''mp4'', ''avi'', ''mov'', ''mkv'', ''webm'', ''flv''}"
    by (simp add: VIDEO_EXTENSIONS_def)
  note i = extension_in_list[OF image_names_small il, of ?n]
  note v = extension_in_list[OF video_names_small vl, of ?n]
  have 1: "file_type (toFileItem p) = ImageFile \<longleftrightarrow> getExtension ?n \<in> set IMAGE_EXTENSIONS"
    using t by simp
  have 2: "file_type (toFileItem p) = VideoFile \<longleftrightarrow> \<not> getExtension ?n \<in> set IMAGE_EXTENSIONS"
    using t by simp
  show "?n = rev (takeWhile (\<lambda>c. c \<noteq> CHR ''/'' \<and> c \<noteq> CHR 0x5C) (rev p))"
    by (rule name_literal)
  show "file_type (toFileItem p) = ImageFile \<longleftrightarrow>
        (\<exists>stem ext e. ?n = stem @ CHR ''.'' # ext \<and> ext \<noteq> []
           \<and> CHR ''.'' \<notin> set ext
           \<and> e \<in> {''png'', ''jpg'', ''jpeg'', ''gif'', ''bmp'', ''webp''}
           \<and> same_ignoring_case ext e)"
    by (rule trans[OF 1 i])
  show "file_type (toFileItem p) = VideoFile \<longleftrightarrow>
        \<not> (\<exists>stem ext e. ?n = stem @ CHR ''.'' # ext \<and> ext \<noteq> []
           \<and> CHR ''.'' \<notin> set ext
           \<and> e \<in> {''png'', ''jpg'', ''jpeg'', ''gif'', ''bmp'', ''webp''}
           \<and> same_ignoring_case ext e)"
    by (rule trans[OF 2 arg_cong[OF i, of Not]])
  show "(\<exists>stem ext e. ?n = stem @ CHR ''.'' # ext \<and> ext \<noteq> []
           \<and> CHR ''.'' \<notin> set ext
           \<and> e \<in> {''mp4'', ''avi'', ''mov'', ''mkv'', ''webm'', ''flv''}
           \<and> same_ignoring_case ext e)
        \<longrightarrow> file_type (toFileItem p) = VideoFile"
  proof
    assume "\<exists>stem ext e. ?n = stem @ CHR ''.'' # ext \<and> ext \<noteq> []
           \<and> CHR ''.'' \<notin> set ext
           \<and> e \<in> {''mp4'', ''avi'', ''mov'', ''mkv'', ''webm'', ''flv''}
           \<and> same_ignoring_case ext e"
    then have "getExtension ?n \<in> set VIDEO_EXTENSIONS" by (rule v[THEN iffD2])
    then have "\<not> getExtension ?n \<in> set IMAGE_EXTENSIONS" by (rule video_not_image)
    then show "file_type (toFileItem p) = VideoFile" by (rule 2[THEN iffD2])
  qed
qed

theorem classification_by_image_extension_witness:
  "file_type (toFileItem ''/input/Clip.MKV'') = VideoFile
   \<and> file_type (toFileItem ''/input/Photo.v2.PNG'') = ImageFile
   \<and> name (toFileItem ''/input/Photo.v2.PNG'') = ''Photo.v2.PNG''
   \<and> file_type (toFileItem ''/input/png'') = VideoFile"
proof -
  have v: "\<exists>stem ext e. name (toFileItem ''/input/Clip.MKV'') = stem @ CHR ''.'' # ext \<and> ext \<noteq> []
           \<and> CHR ''.'' \<notin> set ext
           \<and> e \<in> {''mp4'', ''avi'', ''mov'', ''mkv'', ''webm'', ''flv''}
           \<and> same_ignoring_case ext e"
  proof (intro exI conjI)
    show "name (toFileItem ''/input/Clip.MKV'') = ''Clip'' @ CHR ''.'' # ''MKV''" by code_simp
    show "same_ignoring_case ''MKV'' ''mkv''" by code_simp
  qed simp_all
  have i: "\<exists>stem ext e. name (toFileItem ''/input/Photo.v2.PNG'') = stem @ CHR ''.'' # ext
           \<and> ext \<noteq> [] \<and> CHR ''.'' \<notin> set ext
           \<and> e \<in> {''png'', ''jpg'', ''jpeg'', ''gif'', ''bmp'', ''webp''}
           \<and> same_ignoring_case ext e"
  proof (intro exI conjI)
    show "name (toFileItem ''/input/Photo.v2.PNG'') = ''Photo.v2'' @ CHR ''.'' # ''PNG''"
      by code_simp
    show "same_ignoring_case ''PNG'' ''png''" by code_simp
  qed simp_all
  note a = classification_by_image_extension[of "''/input/Clip.MKV''"]
  note b = classification_by_image_extension[of "''/input/Photo.v2.PNG''"]
  note c = classification_by_image_extension[of "''/input/png''"]
  have 1: "file_type (toFileItem ''/input/Clip.MKV'') = VideoFile"
    by (rule a[THEN conjunct2, THEN conjunct2, THEN conjunct2, THEN mp, OF v])
  have 2: "file_type (toFileItem ''/input/Photo.v2.PNG'') = ImageFile"
    by (rule b[THEN conjunct2, THEN conjunct1, THEN iffD2, OF i])
  have 3: "name (toFileItem ''/input/Photo.v2.PNG'') = ''Photo.v2.PNG''"
    unfolding b[THEN conjunct1] by simp
  have nm: "name (toFileItem ''/input/png'') = ''png''"
    unfolding c[THEN conjunct1] by simp
  have "\<not> (\<exists>stem ext e. name (toFileItem ''/input/png'') = stem @ CHR ''.'' # ext
           \<and> ext \<noteq> [] \<and> CHR ''.'' \<notin> set ext
           \<and> e \<in> {''png'', ''jpg'', ''jpeg'', ''gif'', ''bmp'', ''webp''}
           \<and> same_ignoring_case ext e)"
  proof
    assume "\<exists>stem ext e. name (toFileItem ''/input/png'') = stem @ CHR ''.'' # ext
           \<and> ext \<noteq> [] \<and> CHR ''.'' \<notin> set ext
           \<and> e \<in> {''png'', ''jpg'', ''jpeg'', ''gif'', ''bmp'', ''webp''}
           \<and> same_ignoring_case ext e"
    then obtain stem ext where "name (toFileItem ''/input/png'') = stem @ CHR ''.'' # ext"
      by blast
    with nm have eq: "stem @ CHR ''.'' # ext = ''png''" by simp
    have "CHR ''.'' \<in> set (stem @ CHR ''.'' # ext)" by simp
    then have "CHR ''.'' \<in> set ''png''" by (simp only: eq)
    then show False by simp
  qed
  then have 4: "file_type (toFileItem ''/input/png'') = VideoFile"
    by (rule c[THEN conjunct2, THEN conjunct2, THEN conjunct1, THEN iffD2])
  from 1 2 3 4 show ?thesis by (intro conjI)
qed

section \<open>Clamping of the custom position\<close>

lemma clamp_code: "Math_max (Fin 0) (Math_min (Fin 1) x) = clamp_unit x"
  by (cases x) (auto simp: Math_max_def Math_min_def clamp_unit_def js_gt_def)

lemma clamp_unit_id: "\<not> js_lt x (Fin 0) \<Longrightarrow> \<not> js_gt x (Fin 1) \<Longrightarrow> clamp_unit x = x"
  by (simp add: clamp_unit_def)

lemma in_unit_clamp: "x \<noteq> NaN \<Longrightarrow> in_unit (clamp_unit x)"
  by (cases x) (auto simp: clamp_unit_def in_unit_def js_gt_def)

lemma updateConfig_custom:
  assumes "p_customPosition partial = Some (Some (x, y))"
  shows "customPosition (config (updateConfig partial st)) =
     (if positionMode (spread (config st) partial) = Some Custom
      then Some (clamp_unit x, clamp_unit y) else Some (x, y))"
  using assms
  by (auto simp: updateConfig_def Let_def clamp_code clamp_unit_id spread_def override_def)

lemma updateConfig_mode:
  "positionMode (config (updateConfig partial st)) = positionMode (spread (config st) partial)"
  by (auto simp: updateConfig_def Let_def split: option.splits)

lemma updateConfig_saved:
  "saved_config (updateConfig partial st) = Some (config (updateConfig partial st))"
  by (simp add: updateConfig_def Let_def)

text \<open>
  C7, as the claim states it, fails: an update that supplies only the custom position
  \<open>{x: 1.5, y: -0.2}\<close> while the position mode is \<open>preset\<close> (the default) stores the
  position as given.
\<close>

theorem customPosition_unclamped_in_preset_mode:
  "customPosition (config (updateConfig
      (no_change\<lparr>p_customPosition := Some (Some (Fin 1.5, Fin (- 0.2)))\<rparr>) initial_settings))
    = Some (Fin 1.5, Fin (- 0.2))
   \<and> \<not> in_unit (Fin 1.5) \<and> \<not> in_unit (Fin (- 0.2))
   \<and> clamp_unit (Fin 1.5) = Fin 1 \<and> clamp_unit (Fin (- 0.2)) = Fin 0"
  by (simp add: updateConfig_def Let_def no_change_def initial_settings_def spread_def
      override_def DEFAULT_WATERMARK_CONFIG_def in_unit_def clamp_unit_def js_gt_def)

text \<open>
  C7, amended. For an update that supplies a custom position: when the position mode
  after the update is \<open>custom\<close>, the stored position is the supplied one clamped
  componentwise to [0, 1], and every component that is a number (not NaN) ends up in
  [0, 1]; when the mode after the update is not \<open>custom\<close>, the position is stored as
  supplied. In both cases the update is applied and persisted, never rejected.
\<close>

theorem customPosition_clamped_in_custom_mode:
  assumes "p_customPosition partial = Some (Some (x, y))"
  shows "(positionMode (config (updateConfig partial st)) = Some Custom \<longrightarrow>
            customPosition (config (updateConfig partial st))
              = Some (clamp_unit x, clamp_unit y)
            \<and> (x \<noteq> NaN \<longrightarrow> in_unit (clamp_unit x))
            \<and> (y \<noteq> NaN \<longrightarrow> in_unit (clamp_unit y)))
     \<and> (positionMode (config (updateConfig partial st)) \<noteq> Some Custom \<longrightarrow>
            customPosition (config (updateConfig partial st)) = Some (x, y))
     \<and> saved_config (updateConfig partial st) = Some (config (updateConfig partial st))"
  using updateConfig_custom[OF assms, of st]
  by (simp add: updateConfig_mode updateConfig_saved in_unit_clamp)

theorem customPosition_clamped_in_custom_mode_witness:
  "positionMode (config (updateConfig
      (no_change\<lparr>p_positionMode := Some (Some Custom),
         p_customPosition := Some (Some (Fin 1.5, Fin (- 0.2)))\<rparr>) initial_settings))
    = Some Custom
   \<and> customPosition (config (updateConfig
      (no_change\<lparr>p_positionMode := Some (Some Custom),
         p_customPosition := Some (Some (Fin 1.5, Fin (- 0.2)))\<rparr>) initial_settings))
    = Some (Fin 1, Fin 0)
   \<and> in_unit (Fin 1) \<and> in_unit (Fin 0)
   \<and> positionMode (config (updateConfig
      (no_change\<lparr>p_customPosition := Some (Some (Fin 2, Fin 0.5))\<rparr>) initial_settings))
    = Some Preset
   \<and> customPosition (config (updateConfig
      (no_change\<lparr>p_customPosition := Some (Some (Fin 2, Fin 0.5))\<rparr>) initial_settings))
    = Some (Fin 2, Fin 0.5)"
  using customPosition_clamped_in_custom_mode[of
      "no_change\<lparr>p_positionMode := Some (Some Custom),
         p_customPosition := Some (Some (Fin 1.5, Fin (- 0.2)))\<rparr>"
      "Fin 1.5" "Fin (- 0.2)" initial_settings]
    customPosition_clamped_in_custom_mode[of
      "no_change\<lparr>p_customPosition := Some (Some (Fin 2, Fin 0.5))\<rparr>"
      "Fin 2" "Fin 0.5" initial_settings]
  by (simp add: updateConfig_mode no_change_def initial_settings_def spread_def override_def
      DEFAULT_WATERMARK_CONFIG_def clamp_unit_def js_gt_def in_unit_def)

end
